theory Spec2Isabelle
  imports Main "HOL-Library.Word" "HOL-Library.List_Lexorder"
begin

section \<open>JavaScript strings\<close>

text \<open>
  A JavaScript string is a sequence of UTF-16 code units. The regular expressions of
  the formatter have no \<open>u\<close> flag, so they, \<open>trim\<close>, \<open>split\<close>, \<open>includes\<close> and
  the default \<open>sort\<close> all work on code units.
\<close>

type_synonym jsstring = "16 word list"

text \<open>An ASCII literal as a JavaScript string.\<close>

definition js :: "string \<Rightarrow> jsstring" where
  "js s = map of_char s"

definition lparen :: "16 word" where
  "lparen = 0x28"

definition rparen :: "16 word" where
  "rparen = 0x29"

definition space :: "16 word" where
  "space = 0x20"

definition newline :: "16 word" where
  "newline = 0x0A"

text \<open>
  ECMAScript \<open>LineTerminator\<close>: LF, CR, LS, PS. The regular expression atom \<open>.\<close>
  (without the \<open>s\<close> flag) matches every code unit but these.
\<close>

definition is_line_terminator :: "16 word \<Rightarrow> bool" where
  "is_line_terminator c = (c = 0x0A \<or> c = 0x0D \<or> c = 0x2028 \<or> c = 0x2029)"

text \<open>
  ECMAScript \<open>WhiteSpace\<close> and \<open>LineTerminator\<close>: what \<open>String.prototype.trim\<close>
  strips and what the class escape \<open>\s\<close> matches.
\<close>

definition is_whitespace :: "16 word \<Rightarrow> bool" where
  "is_whitespace c =
     (c = 0x09 \<or> c = 0x0B \<or> c = 0x0C \<or> c = 0x20 \<or> c = 0xA0 \<or> c = 0x1680
      \<or> (0x2000 \<le> c \<and> c \<le> 0x200A)
      \<or> c = 0x202F \<or> c = 0x205F \<or> c = 0x3000 \<or> c = 0xFEFF
      \<or> is_line_terminator c)"

definition trim :: "jsstring \<Rightarrow> jsstring" where
  "trim s = rev (dropWhile is_whitespace (rev (dropWhile is_whitespace s)))"

text \<open>\<open>text.split('\n')\<close>: the empty string splits into one empty line.\<close>

fun split_nl :: "jsstring \<Rightarrow> jsstring list" where
  "split_nl [] = [[]]"
| "split_nl (c # cs) =
     (if c = newline then [] # split_nl cs
      else (case split_nl cs of
              [] \<Rightarrow> [[c]]
            | l # ls \<Rightarrow> (c # l) # ls))"

text \<open>\<open>lines.join(sep)\<close>.\<close>

fun join :: "jsstring \<Rightarrow> jsstring list \<Rightarrow> jsstring" where
  "join sep [] = []"
| "join sep [x] = x"
| "join sep (x # y # ys) = x @ sep @ join sep (y # ys)"

section \<open>The speaker-label pattern of parseTranscript\<close>

text \<open>
  \<^verbatim>\<open>trimmed.match(/^(.+?)\s*\(([^)]+)\)$/)\<close>, as the backtracking matcher runs it.
  Each quantifier is one function, which tries its alternatives in the engine's order
  and hands the rest of the line to the matcher of what follows it.
\<close>

text \<open>
  \<^verbatim>\<open>([^)]+)\)$\<close> after the opening parenthesis: \<open>[^)]+\<close> is greedy, so it first
  takes the whole run of \<open>n\<close> code units other than \<open>)\<close> and then gives them back one
  at a time, never going below one; after it the line must be exactly \<open>)\<close>.
\<close>

fun token_end :: "nat \<Rightarrow> jsstring \<Rightarrow> jsstring option" where
  "token_end 0 r = None"
| "token_end (Suc n) r =
     (if drop (Suc n) r = [rparen] then Some (take (Suc n) r) else token_end n r)"

text \<open>\<^verbatim>\<open>\(([^)]+)\)$\<close> at the current position.\<close>

fun paren_token :: "jsstring \<Rightarrow> jsstring option" where
  "paren_token [] = None"
| "paren_token (c # r) =
     (if c = lparen then token_end (length (takeWhile (\<lambda>d. d \<noteq> rparen) r)) r else None)"

text \<open>
  \<^verbatim>\<open>\s*\(([^)]+)\)$\<close>: \<open>\s*\<close> is greedy, so it first skips the whole run of \<open>n\<close>
  whitespace code units and then gives them back one at a time, down to none.
\<close>

fun ws_then :: "nat \<Rightarrow> jsstring \<Rightarrow> jsstring option" where
  "ws_then n r =
     (case paren_token (drop n r) of
        Some t \<Rightarrow> Some t
      | None \<Rightarrow> (case n of 0 \<Rightarrow> None | Suc m \<Rightarrow> ws_then m r))"

definition after_prefix :: "jsstring \<Rightarrow> jsstring option" where
  "after_prefix r = ws_then (length (takeWhile is_whitespace r)) r"

text \<open>
  \<^verbatim>\<open>^(.+?)\<close>: lazy, so the prefix takes one code unit (not a line terminator), tries
  the rest of the pattern, and takes one more each time the rest fails. The result is
  the pair of the captures: group 1 (the prefix) and group 2 (the token).
\<close>

fun lazy_prefix :: "jsstring \<Rightarrow> jsstring \<Rightarrow> (jsstring \<times> jsstring) option" where
  "lazy_prefix pre [] = None"
| "lazy_prefix pre (c # r) =
     (if is_line_terminator c then None
      else (case after_prefix r of
              Some t \<Rightarrow> Some (pre @ [c], t)
            | None \<Rightarrow> lazy_prefix (pre @ [c]) r))"

definition speakerMatch :: "jsstring \<Rightarrow> (jsstring \<times> jsstring) option" where
  "speakerMatch trimmed = lazy_prefix [] trimmed"

section \<open>parseTranscript\<close>

record segment =
  speaker :: jsstring
  text' :: jsstring

text \<open>
  The loop's variables. \<open>currentSpeaker\<close> is \<open>null\<close> (\<open>None\<close>) until the first
  label line.
\<close>

record pstate =
  segments :: "segment list"
  currentSpeaker :: "jsstring option"
  currentText :: jsstring

text \<open>
  \<^verbatim>\<open>if (currentSpeaker && currentText) segments.push({...})\<close>: \<open>null\<close> and the empty
  string are falsy, every other string is truthy.
\<close>

definition push_segment :: "pstate \<Rightarrow> segment list" where
  "push_segment st =
     (case currentSpeaker st of
        None \<Rightarrow> segments st
      | Some sp \<Rightarrow>
          (if sp \<noteq> [] \<and> currentText st \<noteq> []
           then segments st @ [\<lparr>speaker = sp, text' = trim (currentText st)\<rparr>]
           else segments st))"

text \<open>The body of the \<open>for\<close> loop, for one line.\<close>

definition step :: "pstate \<Rightarrow> jsstring \<Rightarrow> pstate" where
  "step st line =
     (let trimmed = trim line in
      if trimmed = [] then st
      else (case speakerMatch trimmed of
              Some (pre, tok) \<Rightarrow>
                \<lparr>segments = push_segment st, currentSpeaker = Some tok, currentText = pre\<rparr>
            | None \<Rightarrow> st\<lparr>currentText := currentText st @ [space] @ trimmed\<rparr>))"

definition init :: pstate where
  "init = \<lparr>segments = [], currentSpeaker = None, currentText = []\<rparr>"

definition parse_lines :: "pstate \<Rightarrow> jsstring list \<Rightarrow> segment list" where
  "parse_lines st ls = push_segment (foldl step st ls)"

definition parseTranscript :: "jsstring \<Rightarrow> segment list" where
  "parseTranscript txt = parse_lines init (split_nl txt)"

text \<open>
  A line is a speaker-label line when the loop takes its \<open>if (speakerMatch)\<close> branch:
  its trimmed form is not empty and the pattern matches it.
\<close>

definition is_label_line :: "jsstring \<Rightarrow> bool" where
  "is_label_line line = (trim line \<noteq> [] \<and> speakerMatch (trim line) \<noteq> None)"

text \<open>
  What the loop keeps true. A pushed segment has a speaker and a text that are not
  empty, the text free of whitespace at both ends; and once a speaker is set, the
  accumulated text is not empty and starts and ends with a code unit that is not
  whitespace.
\<close>

definition segment_ok :: "segment \<Rightarrow> bool" where
  "segment_ok seg = (speaker seg \<noteq> [] \<and> text' seg \<noteq> [] \<and> trim (text' seg) = text' seg)"

definition open_turn_ok :: "pstate \<Rightarrow> bool" where
  "open_turn_ok st =
     (case currentSpeaker st of
        None \<Rightarrow> True
      | Some sp \<Rightarrow>
          sp \<noteq> [] \<and> currentText st \<noteq> [] \<and> \<not> is_whitespace (hd (currentText st))
          \<and> \<not> is_whitespace (last (currentText st)))"

text \<open>
  The specification's reading of a label line, for comparison with \<open>speakerMatch\<close>: the
  trimmed line ends with a parenthesized single token, that is \<open>(\<close>, one or more code
  units that are neither whitespace nor parentheses, and \<open>)\<close> as the last code unit.
\<close>

definition is_token_char :: "16 word \<Rightarrow> bool" where
  "is_token_char c = (\<not> is_whitespace c \<and> c \<noteq> lparen \<and> c \<noteq> rparen)"

definition spec_ends_with_single_token :: "jsstring \<Rightarrow> bool" where
  "spec_ends_with_single_token s =
     (case rev s of
        [] \<Rightarrow> False
      | c # r \<Rightarrow>
          c = rparen \<and> takeWhile is_token_char r \<noteq> []
          \<and> take 1 (dropWhile is_token_char r) = [lparen])"

section \<open>extractSpeakers\<close>

text \<open>
  \<^verbatim>\<open>/\(([^)]+)\)/g\<close> at one position, after the opening parenthesis: \<open>[^)]+\<close> is
  greedy, so it first takes the whole run of \<open>n\<close> code units other than \<open>)\<close> and then
  gives them back one at a time, never going below one; the next code unit must be
  \<open>)\<close>. The result is the capture and the text from the new \<open>lastIndex\<close> on.
\<close>

fun capture_end :: "nat \<Rightarrow> jsstring \<Rightarrow> (jsstring \<times> jsstring) option" where
  "capture_end 0 r = None"
| "capture_end (Suc n) r =
     (case drop (Suc n) r of
        [] \<Rightarrow> capture_end n r
      | d # rest \<Rightarrow> if d = rparen then Some (take (Suc n) r, rest) else capture_end n r)"

text \<open>
  One call of \<open>speakerPattern.exec(text)\<close> on the text from \<open>lastIndex\<close> on: the match
  is tried at each position from the left, and \<open>None\<close> is \<open>null\<close>.
\<close>

fun exec_speakerPattern :: "jsstring \<Rightarrow> (jsstring \<times> jsstring) option" where
  "exec_speakerPattern [] = None"
| "exec_speakerPattern (c # r) =
     (if c = lparen
      then (case capture_end (length (takeWhile (\<lambda>d. d \<noteq> rparen) r)) r of
              Some m \<Rightarrow> Some m
            | None \<Rightarrow> exec_speakerPattern r)
      else exec_speakerPattern r)"

text \<open>Every match consumes at least its two parentheses, so the scan moves on.\<close>

lemma capture_end_length: "capture_end n r = Some (t, rest) \<Longrightarrow> length rest < length r"
proof (induction n)
  case 0
  then show ?case by simp
next
  case (Suc n)
  show ?case
  proof (cases "drop (Suc n) r")
    case Nil
    with Suc show ?thesis by simp
  next
    case (Cons d rest')
    have "length (drop (Suc n) r) \<le> length r" by simp
    with Cons have "length rest' < length r" by simp
    with Suc Cons show ?thesis by (auto split: if_splits)
  qed
qed

lemma exec_speakerPattern_length:
  "exec_speakerPattern s = Some (t, rest) \<Longrightarrow> length rest < length s"
proof (induction s)
  case Nil
  then show ?case by simp
next
  case (Cons c r)
  then show ?case
    by (auto split: if_splits option.splits dest: capture_end_length)
qed

text \<open>
  \<open>speakers.add(speaker)\<close>: a JavaScript \<open>Set\<close> keeps its elements in insertion order,
  each once.
\<close>

definition set_add :: "jsstring list \<Rightarrow> jsstring \<Rightarrow> jsstring list" where
  "set_add speakers x = (if x \<in> set speakers then speakers else speakers @ [x])"

text \<open>
  The \<open>while ((match = speakerPattern.exec(text)) !== null)\<close> loop, with its guard
  \<^verbatim>\<open>if (speaker && !speaker.includes(' '))\<close>.
\<close>

function collect_speakers :: "jsstring \<Rightarrow> jsstring list \<Rightarrow> jsstring list" where
  "collect_speakers s speakers =
     (case exec_speakerPattern s of
        None \<Rightarrow> speakers
      | Some (sp, rest) \<Rightarrow>
          collect_speakers rest
            (if sp \<noteq> [] \<and> space \<notin> set sp then set_add speakers sp else speakers))"
  by pat_completeness auto
termination
  by (relation "measure (\<lambda>(s, speakers). length s)")
     (auto dest: exec_speakerPattern_length)

declare collect_speakers.simps [simp del]

text \<open>
  \<^verbatim>\<open>Array.from(speakers).sort().join(', ')\<close>: the default \<open>sort\<close> orders strings by
  their code units, which is the lexicographic order \<open><\<close> on lists of words.
\<close>

definition extractSpeakers :: "jsstring \<Rightarrow> jsstring" where
  "extractSpeakers txt = join (js '', '') (sort (collect_speakers txt []))"

text \<open>
  The captures of all the matches of the scan, before the guard and the set: used to
  state what \<open>collect_speakers\<close> gathers.
\<close>

function captures :: "jsstring \<Rightarrow> jsstring list" where
  "captures s =
     (case exec_speakerPattern s of
        None \<Rightarrow> []
      | Some (sp, rest) \<Rightarrow> sp # captures rest)"
  by pat_completeness auto
termination
  by (relation "measure length") (auto dest: exec_speakerPattern_length)

declare captures.simps [simp del]

text \<open>
  No match can start inside \<open>pre\<close> when a match follows it: every \<open>(\<close> of \<open>pre\<close> is
  directly followed by \<open>)\<close>.
\<close>

definition no_match_start :: "jsstring \<Rightarrow> bool" where
  "no_match_start pre = (\<forall>a b. pre = a @ lparen # b \<longrightarrow> (\<exists>b'. b = rparen # b'))"

text \<open>
  The specification's reading of the scan, for comparison with \<open>extractSpeakers\<close>:
  every parenthesized span of code units that are neither whitespace nor parentheses,
  anywhere in the text, the distinct values sorted and joined.
\<close>

fun spec_spans :: "jsstring \<Rightarrow> jsstring list" where
  "spec_spans [] = []"
| "spec_spans (c # r) =
     (if c = lparen \<and> takeWhile is_token_char r \<noteq> []
         \<and> take 1 (dropWhile is_token_char r) = [rparen]
      then takeWhile is_token_char r # spec_spans r
      else spec_spans r)"

definition spec_extractSpeakers :: "jsstring \<Rightarrow> jsstring" where
  "spec_extractSpeakers txt = join (js '', '') (sort (remdups (spec_spans txt)))"

section \<open>The document\<close>

text \<open>
  The options objects handed to the document library's constructors, as records. A
  paragraph's content is its \<open>text\<close> option followed by the texts of its runs.
\<close>

datatype alignment = CENTER | BOTH

record font =
  font_name :: string
  font_size :: nat

text \<open>A border rule; its style is always \<open>BorderStyle.SINGLE\<close>.\<close>

record border =
  border_color :: string
  border_space :: nat
  border_size :: nat

record TextRun =
  run_text :: jsstring
  run_bold :: bool
  run_font :: "font option"
  run_color :: "string option"
  run_underline :: bool

record Paragraph =
  par_text :: "jsstring option"
  par_alignment :: "alignment option"
  par_bold :: bool
  par_font :: "font option"
  par_border_top :: "border option"
  par_border_bottom :: "border option"
  par_children :: "TextRun list"

text \<open>
  The page margins in twips: \<open>convertInchesToTwip(1.25)\<close> is 1800 and
  \<open>convertInchesToTwip(0.5)\<close> is 720.
\<close>

record page_margin =
  margin_top :: nat
  margin_bottom :: nat
  margin_left :: nat
  margin_right :: nat

record Document =
  doc_margin :: page_margin
  doc_header :: "Paragraph list"
  doc_footer :: "Paragraph list"
  doc_children :: "Paragraph list"

definition times24 :: font where
  "times24 = \<lparr>font_name = ''Times New Roman'', font_size = 24\<rparr>"

definition rule12 :: border where
  "rule12 = \<lparr>border_color = ''000000'', border_space = 1, border_size = 12\<rparr>"

definition tab :: "16 word" where
  "tab = 0x09"

text \<open>A run with only \<open>text\<close>, \<open>bold\<close> and \<open>font\<close> set.\<close>

definition run :: "jsstring \<Rightarrow> bool \<Rightarrow> TextRun" where
  "run t b = \<lparr>run_text = t, run_bold = b, run_font = Some times24, run_color = None,
     run_underline = False\<rparr>"

text \<open>A paragraph with only \<open>children\<close> set.\<close>

definition par_of_runs :: "TextRun list \<Rightarrow> Paragraph" where
  "par_of_runs rs = \<lparr>par_text = None, par_alignment = None, par_bold = False,
     par_font = None, par_border_top = None, par_border_bottom = None, par_children = rs\<rparr>"

text \<open>\<^verbatim>\<open>new Paragraph({ text: '' })\<close>.\<close>

definition blank_paragraph :: Paragraph where
  "blank_paragraph = (par_of_runs [])\<lparr>par_text := Some []\<rparr>"

text \<open>A header paragraph: centred, bold, with the \<open>text\<close> option.\<close>

definition header_paragraph :: "jsstring \<Rightarrow> border option \<Rightarrow> Paragraph" where
  "header_paragraph t b = \<lparr>par_text = Some t, par_alignment = Some CENTER, par_bold = True,
     par_font = Some times24, par_border_top = None, par_border_bottom = b,
     par_children = []\<rparr>"

text \<open>The paragraph that \<open>segments.map\<close> builds for one segment.\<close>

definition segment_paragraph :: "segment \<Rightarrow> Paragraph" where
  "segment_paragraph seg =
     (par_of_runs [run (speaker seg @ js '':'' @ [tab]) True, run (text' seg) False])
       \<lparr>par_alignment := Some BOTH\<rparr>"

definition footer_paragraph :: Paragraph where
  "footer_paragraph =
     (par_of_runs
        [(run (js ''www.gmrtranscription.com'') False)
           \<lparr>run_color := Some ''0000FF'', run_underline := True\<rparr>,
         run (js '' -'') False])
       \<lparr>par_alignment := Some CENTER, par_border_top := Some rule12\<rparr>"

text \<open>
  \<open>new Document({...})\<close> for a title (\<open>baseFilename\<close>), the speaker list, the duration
  argument and the segments.
\<close>

definition build_document :: "jsstring \<Rightarrow> jsstring \<Rightarrow> jsstring \<Rightarrow> segment list \<Rightarrow> Document" where
  "build_document baseFilename speakers duration segs =
     \<lparr>doc_margin = \<lparr>margin_top = 1800, margin_bottom = 1800, margin_left = 720,
        margin_right = 720\<rparr>,
      doc_header = [header_paragraph baseFilename None,
                    header_paragraph speakers (Some rule12)],
      doc_footer = [footer_paragraph],
      doc_children =
        map segment_paragraph segs
        @ [blank_paragraph,
           par_of_runs [run (js ''[End of Audio]'') True],
           blank_paragraph,
           par_of_runs [run (js ''Duration: '' @ duration @ js '' minutes'') True]]\<rparr>"

definition par_content :: "Paragraph \<Rightarrow> jsstring" where
  "par_content p =
     (case par_text p of None \<Rightarrow> [] | Some t \<Rightarrow> t) @ concat (map run_text (par_children p))"

section \<open>The transcribe command\<close>

text \<open>
  What the script reads from its environment: whether each of the two directories
  exists and, when it does not, what \<open>fs.mkdirSync\<close> throws for it (\<open>None\<close> when the
  directory is created); \<open>process.argv[2]\<close> (\<open>None\<close> when there is no argument);
  whether the audio file exists; what \<open>fs.readdirSync(audioDir)\<close> does (\<open>Inl\<close> the
  message of the exception it throws, \<open>Inr\<close> the listing); and what the transcription
  subprocess hands to the callback of \<open>exec\<close> (\<open>error.message\<close>, or \<open>None\<close> for a
  \<open>null\<close> error, and the two streams). \<open>fs.existsSync\<close> never throws, and \<open>exec\<close>
  reports a subprocess that cannot be started through its callback.
\<close>

record environment =
  audioDirExists :: bool
  mkdirAudioDir_throws :: "string option"
  transcriptsDirExists :: bool
  mkdirTranscriptsDir_throws :: "string option"
  audioFileName :: "string option"
  audioFileExists :: bool
  readdirAudioDir :: "string + string list"
  exec_error :: "string option"
  exec_stdout :: string
  exec_stderr :: string

text \<open>
  The console calls of the script, and the report of an uncaught exception that the
  runtime writes to the error stream. A message that interpolates a path carries the
  file name the path is built from.
\<close>

datatype message =
    CreatedAudioDir
  | CreatedTranscriptsDir
  | ProvideFileName
  | UsageLine
  | ExampleLine
  | PlaceFilesLine
  | SavedToLine
  | FileNotFound string
  | MakeSureLine
  | AvailableFilesLine
  | FileLine string
  | FolderEmptyLine
  | EmptyLine
  | StartingLine
  | InputLine string
  | OutputLine string
  | WaitLine
  | TranscriptionFailed string
  | Plain string
  | CompleteLine
  | TextOutputLine string
  | TimestampedOutputLine string
  | NextStepsLine
  | NextStep nat
  | Uncaught string

datatype console = Log message | Error message

text \<open>
  How a run ends: what was printed, whether the subprocess was started, and the exit
  code. \<open>process.exit(1)\<close> ends the run with code 1, and so does an exception that
  nothing catches; a run that calls no \<open>process.exit\<close>, sets no \<open>process.exitCode\<close>
  and throws nothing ends with code 0 once nothing is pending.
\<close>

record outcome =
  printed :: "console list"
  exec_started :: bool
  exit_code :: nat

text \<open>JavaScript truthiness of \<open>process.argv[2]\<close> and of a string.\<close>

definition truthy :: "string \<Rightarrow> bool" where
  "truthy s = (s \<noteq> [])"

text \<open>The check \<open>if (!audioFileName)\<close>: no argument, or an empty one.\<close>

definition arg_missing :: "string option \<Rightarrow> bool" where
  "arg_missing a = (case a of None \<Rightarrow> True | Some name \<Rightarrow> \<not> truthy name)"

text \<open>
  The script has no \<open>try\<close>: an exception ends the run at once, after what was printed
  so far, with exit code 1.
\<close>

definition uncaught :: "console list \<Rightarrow> string \<Rightarrow> outcome" where
  "uncaught sofar msg =
     \<lparr>printed = sofar @ [Error (Uncaught msg)], exec_started = False, exit_code = 1\<rparr>"

text \<open>
  \<^verbatim>\<open>if (!fs.existsSync(dir)) { fs.mkdirSync(dir); console.log(...) }\<close>: \<open>Inl\<close> the
  message of the exception of \<open>mkdirSync\<close>, or \<open>Inr\<close> what was printed.
\<close>

definition ensure_dir :: "bool \<Rightarrow> string option \<Rightarrow> message \<Rightarrow> string + console list" where
  "ensure_dir dir_exists throws created =
     (if dir_exists then Inr []
      else (case throws of
              Some msg \<Rightarrow> Inl msg
            | None \<Rightarrow> Inr [Log created]))"

text \<open>One of the two \<open>mkdirSync\<close> calls is reached and throws.\<close>

definition mkdir_throws :: "environment \<Rightarrow> bool" where
  "mkdir_throws e =
     (case ensure_dir (audioDirExists e) (mkdirAudioDir_throws e) CreatedAudioDir of
        Inl msg \<Rightarrow> True
      | Inr d1 \<Rightarrow>
          (case ensure_dir (transcriptsDirExists e) (mkdirTranscriptsDir_throws e)
                  CreatedTranscriptsDir of
             Inl msg \<Rightarrow> True
           | Inr d2 \<Rightarrow> False))"

text \<open>The callback of \<open>exec\<close>.\<close>

definition exec_callback :: "string \<Rightarrow> environment \<Rightarrow> console list" where
  "exec_callback name e =
     (case exec_error e of
        Some msg \<Rightarrow> [Error (TranscriptionFailed msg)]
      | None \<Rightarrow>
          (if truthy (exec_stderr e) then [Log (Plain (exec_stderr e))] else [])
          @ [Log (Plain (exec_stdout e)), Log CompleteLine, Log (TextOutputLine name),
             Log (TimestampedOutputLine name), Log NextStepsLine, Log (NextStep 1),
             Log (NextStep 2), Log (NextStep 3), Log (NextStep 4)])"

text \<open>The script from the read of \<open>process.argv[2]\<close> on, after \<open>dirs\<close> was printed.\<close>

definition from_argument :: "console list \<Rightarrow> environment \<Rightarrow> outcome" where
  "from_argument dirs e =
     (case audioFileName e of
        None \<Rightarrow>
          \<lparr>printed = dirs @ [Error ProvideFileName, Log UsageLine, Log ExampleLine,
                              Log PlaceFilesLine, Log SavedToLine],
           exec_started = False, exit_code = 1\<rparr>
      | Some name \<Rightarrow>
          if \<not> truthy name then
            \<lparr>printed = dirs @ [Error ProvideFileName, Log UsageLine, Log ExampleLine,
                                Log PlaceFilesLine, Log SavedToLine],
             exec_started = False, exit_code = 1\<rparr>
          else if \<not> audioFileExists e then
            (case readdirAudioDir e of
               Inl msg \<Rightarrow>
                 uncaught (dirs @ [Error (FileNotFound name), Log MakeSureLine]) msg
             | Inr listing \<Rightarrow>
                 (let files = filter (\<lambda>f. take 1 f \<noteq> ''.'') listing in
                  \<lparr>printed = dirs @ [Error (FileNotFound name), Log MakeSureLine]
                       @ (if 0 < length files
                          then Log AvailableFilesLine # map (\<lambda>f. Log (FileLine f)) files
                          else [Log FolderEmptyLine])
                       @ [Log EmptyLine],
                   exec_started = False, exit_code = 1\<rparr>))
          else
            \<lparr>printed = dirs @ [Log StartingLine, Log (InputLine name),
                                Log (OutputLine name), Log WaitLine]
                  @ exec_callback name e,
             exec_started = True, exit_code = 0\<rparr>)"

definition transcribe :: "environment \<Rightarrow> outcome" where
  "transcribe e =
     (case ensure_dir (audioDirExists e) (mkdirAudioDir_throws e) CreatedAudioDir of
        Inl msg \<Rightarrow> uncaught [] msg
      | Inr d1 \<Rightarrow>
          (case ensure_dir (transcriptsDirExists e) (mkdirTranscriptsDir_throws e)
                  CreatedTranscriptsDir of
             Inl msg \<Rightarrow> uncaught d1 msg
           | Inr d2 \<Rightarrow> from_argument (d1 @ d2) e))"

section \<open>The speaker-label pattern: what a match looks like\<close>

lemma not_ws_lparen: "\<not> is_whitespace lparen"
  by (simp add: is_whitespace_def is_line_terminator_def lparen_def)

lemma token_end_Some: "token_end n r = Some t \<Longrightarrow> t \<noteq> [] \<and> r = t @ [rparen]"
proof (induction n)
  case 0
  then show ?case by simp
next
  case (Suc n)
  show ?case
  proof (cases "drop (Suc n) r = [rparen]")
    case True
    with Suc.prems have t: "t = take (Suc n) r" by simp
    have "r = take (Suc n) r @ drop (Suc n) r" by simp
    with True t have r: "r = t @ [rparen]" by simp
    from True have "Suc n < length r" by (metis drop_all linorder_not_le not_Cons_self2)
    with t have "t \<noteq> []" by auto
    with r show ?thesis by simp
  next
    case False
    with Suc show ?thesis by simp
  qed
qed

lemma paren_token_Some: "paren_token s = Some t \<Longrightarrow> t \<noteq> [] \<and> s = lparen # t @ [rparen]"
  by (cases s) (auto split: if_splits dest: token_end_Some)

lemma ws_then_Some: "ws_then n r = Some t \<Longrightarrow> \<exists>m\<le>n. paren_token (drop m r) = Some t"
proof (induction n)
  case 0
  then show ?case by (auto split: option.splits)
next
  case (Suc n)
  show ?case
  proof (cases "paren_token (drop (Suc n) r)")
    case None
    with Suc.prems have "ws_then n r = Some t" by simp
    from Suc.IH[OF this] show ?thesis using le_Suc_eq by blast
  next
    case (Some u)
    with Suc.prems have "u = t" by simp
    with Some show ?thesis by blast
  qed
qed

lemma ws_then_complete: "m \<le> n \<Longrightarrow> paren_token (drop m r) = Some t \<Longrightarrow> \<exists>u. ws_then n r = Some u"
proof (induction n)
  case 0
  then show ?case by simp
next
  case (Suc n)
  show ?case
  proof (cases "m = Suc n")
    case True
    with Suc.prems show ?thesis by simp
  next
    case False
    with Suc.prems have "m \<le> n" by simp
    from Suc.IH[OF this Suc.prems(2)] show ?thesis by (auto split: option.splits)
  qed
qed

lemma after_prefix_ws_Cons:
  assumes "is_whitespace c" and "after_prefix r = Some t"
  shows "\<exists>u. after_prefix (c # r) = Some u"
proof -
  from assms(2) obtain m where m: "m \<le> length (takeWhile is_whitespace r)"
    and p: "paren_token (drop m r) = Some t"
    unfolding after_prefix_def by (blast dest: ws_then_Some)
  from assms(1) have len: "length (takeWhile is_whitespace (c # r)) = Suc (length (takeWhile is_whitespace r))"
    by simp
  have "paren_token (drop (Suc m) (c # r)) = Some t" using p by simp
  moreover have "Suc m \<le> length (takeWhile is_whitespace (c # r))" using m len by simp
  ultimately show ?thesis unfolding after_prefix_def by (rule ws_then_complete[rotated])
qed

lemma after_prefix_lparen: "after_prefix r = Some t \<Longrightarrow> lparen \<in> set r"
proof -
  assume "after_prefix r = Some t"
  then obtain m where "paren_token (drop m r) = Some t"
    unfolding after_prefix_def by (blast dest: ws_then_Some)
  then have "drop m r = lparen # t @ [rparen]" by (simp add: paren_token_Some)
  then have "lparen \<in> set (drop m r)" by simp
  then show ?thesis by (rule in_set_dropD)
qed

lemma after_prefix_token: "after_prefix r = Some t \<Longrightarrow> t \<noteq> []"
  unfolding after_prefix_def by (blast dest: ws_then_Some paren_token_Some)

lemma lazy_prefix_lparen: "lazy_prefix pre s = Some (p, t) \<Longrightarrow> lparen \<in> set (tl s)"
proof (induction pre s rule: lazy_prefix.induct)
  case (1 pre)
  then show ?case by simp
next
  case (2 pre c r)
  show ?case
  proof (cases "after_prefix r")
    case None
    with 2 have "lparen \<in> set (tl r)" by (auto split: if_splits)
    then show ?thesis by (cases r) auto
  next
    case (Some u)
    then show ?thesis by (auto dest: after_prefix_lparen)
  qed
qed

lemma lazy_prefix_shape:
  "lazy_prefix pre s = Some (p, t) \<Longrightarrow>
     (pre = [] \<longrightarrow> \<not> is_whitespace (hd s)) \<Longrightarrow>
     (pre \<noteq> [] \<longrightarrow> after_prefix s = None) \<Longrightarrow>
     (\<exists>q. p = pre @ q \<and> q \<noteq> [] \<and> hd q = hd s) \<and> \<not> is_whitespace (last p) \<and> t \<noteq> []"
proof (induction pre s arbitrary: p t rule: lazy_prefix.induct)
  case (1 pre)
  then show ?case by simp
next
  case (2 pre c r)
  from "2.prems"(1) have nlt: "\<not> is_line_terminator c" by (auto split: if_splits)
  show ?case
  proof (cases "after_prefix r")
    case None
    with "2.prems"(1) nlt have rec: "lazy_prefix (pre @ [c]) r = Some (p, t)" by simp
    have "(\<exists>q. p = (pre @ [c]) @ q \<and> q \<noteq> [] \<and> hd q = hd r) \<and> \<not> is_whitespace (last p) \<and> t \<noteq> []"
      using "2.IH"[OF nlt None rec] None by simp
    then obtain q where "p = pre @ (c # q)" and rest: "\<not> is_whitespace (last p) \<and> t \<noteq> []" by auto
    then show ?thesis by auto
  next
    case (Some u)
    with "2.prems"(1) nlt have p: "p = pre @ [c]" and t: "t = u" by simp_all
    have "\<not> is_whitespace c"
    proof
      assume ws: "is_whitespace c"
      with "2.prems"(2) have "pre \<noteq> []" by auto
      with "2.prems"(3) have "after_prefix (c # r) = None" by simp
      with after_prefix_ws_Cons[OF ws Some] show False by simp
    qed
    with p t Some show ?thesis by (auto dest: after_prefix_token)
  qed
qed

lemma speakerMatch_shape:
  assumes "speakerMatch s = Some (p, t)" and "\<not> is_whitespace (hd s)"
  shows "p \<noteq> [] \<and> \<not> is_whitespace (hd p) \<and> \<not> is_whitespace (last p) \<and> t \<noteq> []"
proof -
  from assms have "(\<exists>q. p = [] @ q \<and> q \<noteq> [] \<and> hd q = hd s) \<and> \<not> is_whitespace (last p) \<and> t \<noteq> []"
    unfolding speakerMatch_def by (intro lazy_prefix_shape) simp_all
  with assms(2) show ?thesis by auto
qed

lemma speakerMatch_needs_lparen: "lparen \<notin> set (tl s) \<Longrightarrow> speakerMatch s = None"
proof (cases "speakerMatch s")
  case None
  then show ?thesis by simp
next
  case (Some a)
  assume n: "lparen \<notin> set (tl s)"
  obtain p t where "a = (p, t)" by (cases a)
  with Some have "lparen \<in> set (tl s)" unfolding speakerMatch_def by (auto dest: lazy_prefix_lparen)
  with n show ?thesis by simp
qed

lemma trim_fixed:
  assumes "s \<noteq> []" and "\<not> is_whitespace (hd s)" and "\<not> is_whitespace (last s)"
  shows "trim s = s"
proof -
  from assms(1,2) have a: "dropWhile is_whitespace s = s" by (cases s) simp_all
  from assms(1,3) have "dropWhile is_whitespace (rev s) = rev s"
    by (cases "rev s") (simp_all add: hd_rev[symmetric])
  with a show ?thesis by (simp add: trim_def)
qed

lemma trim_ends:
  assumes "trim s \<noteq> []"
  shows "\<not> is_whitespace (hd (trim s)) \<and> \<not> is_whitespace (last (trim s))"
proof -
  define d where "d = dropWhile is_whitespace s"
  define e where "e = dropWhile is_whitespace (rev d)"
  have t: "trim s = rev e" by (simp add: trim_def d_def e_def)
  with assms have e: "e \<noteq> []" by simp
  then have d: "d \<noteq> []" by (auto simp: e_def)
  from e have "\<not> is_whitespace (hd e)" unfolding e_def by (rule hd_dropWhile)
  with e t have l: "\<not> is_whitespace (last (trim s))" by (simp add: last_rev)
  from d have hd: "\<not> is_whitespace (hd d)" unfolding d_def by (rule hd_dropWhile)
  have "rev d = takeWhile is_whitespace (rev d) @ e" by (simp add: e_def)
  with e have "last e = last (rev d)" by (metis last_appendR)
  with d have "last e = hd d" by (simp add: last_rev)
  with hd e t have "\<not> is_whitespace (hd (trim s))" by (simp add: hd_rev)
  with l show ?thesis by simp
qed

lemma push_segment_ok:
  assumes "list_all segment_ok (segments st)" and "open_turn_ok st"
  shows "list_all segment_ok (push_segment st)"
proof (cases "currentSpeaker st")
  case None
  with assms(1) show ?thesis by (simp add: push_segment_def)
next
  case (Some sp)
  with assms(2) have "trim (currentText st) = currentText st" and "currentText st \<noteq> []" and "sp \<noteq> []"
    by (auto simp: open_turn_ok_def intro: trim_fixed)
  with Some assms(1) show ?thesis by (simp add: push_segment_def segment_ok_def)
qed

lemma step_ok:
  assumes "list_all segment_ok (segments st)" and "open_turn_ok st"
  shows "list_all segment_ok (segments (step st line)) \<and> open_turn_ok (step st line)"
proof (cases "trim line = []")
  case True
  with assms show ?thesis by (simp add: step_def)
next
  case False
  then have ends: "\<not> is_whitespace (hd (trim line))" "\<not> is_whitespace (last (trim line))"
    using trim_ends by blast+
  show ?thesis
  proof (cases "speakerMatch (trim line)")
    case None
    have "open_turn_ok (st\<lparr>currentText := currentText st @ [space] @ trim line\<rparr>)"
      using assms(2) False ends(2)
      by (auto simp: open_turn_ok_def split: option.splits)
    with None False assms(1) show ?thesis by (simp add: step_def)
  next
    case (Some a)
    obtain p t where a: "a = (p, t)" by (cases a)
    with Some ends(1) have "p \<noteq> [] \<and> \<not> is_whitespace (hd p) \<and> \<not> is_whitespace (last p) \<and> t \<noteq> []"
      by (intro speakerMatch_shape) simp_all
    then have "open_turn_ok \<lparr>segments = push_segment st, currentSpeaker = Some t, currentText = p\<rparr>"
      by (simp add: open_turn_ok_def)
    with Some a False push_segment_ok[OF assms] show ?thesis by (simp add: step_def)
  qed
qed

lemma foldl_step_ok:
  "list_all segment_ok (segments st) \<Longrightarrow> open_turn_ok st \<Longrightarrow>
   list_all segment_ok (segments (foldl step st ls)) \<and> open_turn_ok (foldl step st ls)"
proof (induction ls arbitrary: st)
  case Nil
  then show ?case by simp
next
  case (Cons l ls)
  from step_ok[OF Cons.prems] Cons.IH show ?case by simp
qed

lemma parseTranscript_ok: "list_all segment_ok (parseTranscript txt)"
proof -
  have "list_all segment_ok (segments init)" and "open_turn_ok init"
    by (simp_all add: init_def open_turn_ok_def)
  then have "list_all segment_ok (segments (foldl step init (split_nl txt))) \<and> open_turn_ok (foldl step init (split_nl txt))"
    by (rule foldl_step_ok)
  then show ?thesis unfolding parseTranscript_def parse_lines_def by (simp add: push_segment_ok)
qed

section \<open>Properties of parseTranscript\<close>

text \<open>
  C8: for every input text, every segment that parseTranscript returns has a speaker
  that is not empty and a text that is not empty and equals its own trim; no segment
  with an empty text is ever emitted.
\<close>

theorem parseTranscript_segments_nonempty_trimmed:
  assumes "seg \<in> set (parseTranscript txt)"
  shows "speaker seg \<noteq> [] \<and> text' seg \<noteq> [] \<and> trim (text' seg) = text' seg"
proof -
  have "list_all segment_ok (parseTranscript txt)" by (rule parseTranscript_ok)
  with assms have "segment_ok seg" by (simp add: list_all_iff)
  then show ?thesis by (simp add: segment_ok_def)
qed

theorem parseTranscript_segments_nonempty_trimmed_witness:
  "\<lparr>speaker = js ''ALICE'', text' = js ''How are you''\<rparr> \<in> set (parseTranscript (js ''Hello there (BOB)'' @ [newline] @ js ''How are you (ALICE)'' @ [newline] @ js ''Good thanks (BOB)''))
   \<and> js ''ALICE'' \<noteq> [] \<and> js ''How are you'' \<noteq> [] \<and> trim (js ''How are you'') = js ''How are you''"
proof -
  have m: "\<lparr>speaker = js ''ALICE'', text' = js ''How are you''\<rparr> \<in> set (parseTranscript (js ''Hello there (BOB)'' @ [newline] @ js ''How are you (ALICE)'' @ [newline] @ js ''Good thanks (BOB)''))"
    by code_simp
  from parseTranscript_segments_nonempty_trimmed[OF m] m show ?thesis by simp
qed

text \<open>
  C3: on the three lines "Hello there (BOB)", "How are you (ALICE)", "Good thanks (BOB)"
  joined by newlines, parseTranscript returns exactly the three segments BOB / "Hello
  there", ALICE / "How are you", BOB / "Good thanks", in that order; the two BOB turns
  are not merged.
\<close>

theorem three_turns_example:
  "parseTranscript (js ''Hello there (BOB)'' @ [newline] @ js ''How are you (ALICE)''
      @ [newline] @ js ''Good thanks (BOB)'')
   = [\<lparr>speaker = js ''BOB'', text' = js ''Hello there''\<rparr>,
      \<lparr>speaker = js ''ALICE'', text' = js ''How are you''\<rparr>,
      \<lparr>speaker = js ''BOB'', text' = js ''Good thanks''\<rparr>]"
  by code_simp

text \<open>
  C4: on the two lines "(BOB)" and "(ALICE)" joined by a newline, parseTranscript
  returns a sequence of length 0.
\<close>

theorem bare_labels_example:
  "length (parseTranscript (js ''(BOB)'' @ [newline] @ js ''(ALICE)'')) = 0"
  by code_simp

text \<open>
  C7: a line whose trimmed form is only a parenthesized token, with nothing before the
  opening parenthesis, is never a speaker-label line, because the pattern needs at
  least one code unit of prefix before the parenthesis that opens the token: the loop
  appends the trimmed line to the accumulator after a space and leaves the segments and
  the current speaker as they are. (The token may hold any code units but \<open>(\<close>.)
\<close>

theorem bare_token_line_is_continuation:
  assumes "trim line = lparen # tok @ [rparen]" and "lparen \<notin> set tok"
  shows "\<not> is_label_line line
         \<and> step st line = st\<lparr>currentText := currentText st @ [space] @ trim line\<rparr>"
proof -
  have "lparen \<noteq> rparen" by (simp add: lparen_def rparen_def)
  with assms have "lparen \<notin> set (tl (trim line))" by simp
  then have none: "speakerMatch (trim line) = None" by (rule speakerMatch_needs_lparen)
  from assms(1) have "trim line \<noteq> []" by simp
  with none show ?thesis by (simp add: is_label_line_def step_def)
qed

theorem bare_token_line_is_continuation_witness:
  "trim (js ''  (BOB) '') = lparen # js ''BOB'' @ [rparen]
   \<and> lparen \<notin> set (js ''BOB'')
   \<and> \<not> is_label_line (js ''  (BOB) '')
   \<and> step \<lparr>segments = [], currentSpeaker = Some (js ''AL''), currentText = js ''Hi''\<rparr>
        (js ''  (BOB) '')
      = \<lparr>segments = [], currentSpeaker = Some (js ''AL''), currentText = js ''Hi (BOB)''\<rparr>"
proof -
  have a: "trim (js ''  (BOB) '') = lparen # js ''BOB'' @ [rparen]" by code_simp
  have b: "lparen \<notin> set (js ''BOB'')" by code_simp
  have c: "\<lparr>segments = [], currentSpeaker = Some (js ''AL''), currentText = js ''Hi''\<rparr>
      \<lparr>currentText := js ''Hi'' @ [space] @ trim (js ''  (BOB) '')\<rparr>
     = \<lparr>segments = [], currentSpeaker = Some (js ''AL''), currentText = js ''Hi (BOB)''\<rparr>"
    by code_simp
  from bare_token_line_is_continuation[OF a b,
      of "\<lparr>segments = [], currentSpeaker = Some (js ''AL''), currentText = js ''Hi''\<rparr>"] a b c
  show ?thesis by simp
qed

text \<open>
  C1: the claim is that a line whose trimmed form ends with a parenthesized span with
  whitespace inside is not a speaker-label line. The pattern's class \<open>[^)]+\<close> admits
  whitespace and parseTranscript has no check like the one of extractSpeakers, so on
  the line "He said (not sure what)" the loop pushes the open turn, sets the current
  speaker to "not sure what" and restarts the text at "He said".
\<close>

theorem spaced_parenthetical_taken_as_label:
  "is_label_line (js ''He said (not sure what)'')
   \<and> step \<lparr>segments = [], currentSpeaker = Some (js ''BOB''), currentText = js ''Hi''\<rparr>
        (js ''He said (not sure what)'')
      = \<lparr>segments = [\<lparr>speaker = js ''BOB'', text' = js ''Hi''\<rparr>],
         currentSpeaker = Some (js ''not sure what''), currentText = js ''He said''\<rparr>"
  by code_simp

text \<open>
  C2: the claim is that a text none of whose trimmed lines ends with a parenthesized
  single token gives no segment. On the two lines "Hello there (BOB SMITH)" and "How
  are you" no trimmed line ends with such a token, and parseTranscript returns one
  segment, with the speaker "BOB SMITH".
\<close>

theorem no_single_token_line_yet_a_segment:
  "list_all (\<lambda>l. \<not> spec_ends_with_single_token (trim l))
     (split_nl (js ''Hello there (BOB SMITH)'' @ [newline] @ js ''How are you''))
   \<and> parseTranscript (js ''Hello there (BOB SMITH)'' @ [newline] @ js ''How are you'')
      = [\<lparr>speaker = js ''BOB SMITH'', text' = js ''Hello there How are you''\<rparr>]"
  by code_simp

lemma split_nl_nonempty: "split_nl s \<noteq> []"
  by (induction s) (auto split: list.splits)

lemma split_nl_no_newline: "newline \<notin> set x \<Longrightarrow> split_nl x = [x]"
  by (induction x) auto

lemma split_nl_append: "newline \<notin> set x \<Longrightarrow> split_nl (x @ newline # r) = x # split_nl r"
  by (induction x) (auto split: list.splits)

lemma split_nl_lines: "l \<in> set (split_nl s) \<Longrightarrow> newline \<notin> set l"
proof (induction s arbitrary: l)
  case Nil
  then show ?case by simp
next
  case (Cons c cs)
  show ?case
  proof (cases "c = newline")
    case True
    with Cons show ?thesis by auto
  next
    case False
    obtain k ks where sp: "split_nl cs = k # ks"
      using split_nl_nonempty[of cs] by (cases "split_nl cs") auto
    with Cons.prems False have "l = c # k \<or> l \<in> set ks" by simp
    then show ?thesis
    proof
      assume "l = c # k"
      moreover have "newline \<notin> set k" using Cons.IH[of k] sp by simp
      ultimately show ?thesis using False by auto
    next
      assume "l \<in> set ks"
      with sp show ?thesis using Cons.IH[of l] by simp
    qed
  qed
qed

lemma split_nl_join:
  "ls \<noteq> [] \<Longrightarrow> (\<And>l. l \<in> set ls \<Longrightarrow> newline \<notin> set l) \<Longrightarrow> split_nl (join [newline] ls) = ls"
proof (induction "[newline]" ls rule: join.induct)
  case 1
  then show ?case by simp
next
  case (2 x)
  then show ?case by (simp add: split_nl_no_newline)
next
  case (3 x y ys)
  have "split_nl (join [newline] (y # ys)) = y # ys"
    using 3 by simp
  with 3(3)[of x] show ?case by (simp add: split_nl_append)
qed

lemma step_before_first_label:
  assumes "currentSpeaker st = None" and "segments st = []" and "\<not> is_label_line l"
  shows "currentSpeaker (step st l) = None \<and> segments (step st l) = []"
  using assms by (auto simp: step_def is_label_line_def Let_def split: option.splits)

lemma step_first_label:
  assumes "currentSpeaker st = None" and "segments st = []" and "is_label_line l"
  shows "step st l = step init l"
  using assms by (auto simp: step_def is_label_line_def Let_def push_segment_def init_def split: option.splits)

lemma parse_lines_drop_leading:
  "currentSpeaker st = None \<Longrightarrow> segments st = [] \<Longrightarrow>
   parse_lines st ls = parse_lines init (dropWhile (\<lambda>l. \<not> is_label_line l) ls)"
proof (induction ls arbitrary: st)
  case Nil
  then show ?case by (simp add: parse_lines_def push_segment_def init_def)
next
  case (Cons l ls)
  show ?case
  proof (cases "is_label_line l")
    case True
    with Cons.prems have "step st l = step init l" by (intro step_first_label)
    with True show ?thesis by (simp add: parse_lines_def)
  next
    case False
    with Cons.prems have "currentSpeaker (step st l) = None \<and> segments (step st l) = []"
      by (intro step_before_first_label)
    then have "parse_lines (step st l) ls = parse_lines init (dropWhile (\<lambda>l. \<not> is_label_line l) ls)"
      using Cons.IH by simp
    with False show ?thesis by (simp add: parse_lines_def)
  qed
qed

text \<open>
  C5: the lines before the first speaker-label line contribute to no segment. The
  output of parseTranscript on the whole text equals its output on the text from the
  first line that matches the speaker-label pattern on (the lines from that one on,
  joined by newlines again), and when no line matches, the output is empty.
\<close>

theorem leading_text_discarded:
  "parseTranscript txt
     = parseTranscript (join [newline] (dropWhile (\<lambda>l. \<not> is_label_line l) (split_nl txt)))
   \<and> (list_all (\<lambda>l. \<not> is_label_line l) (split_nl txt) \<longrightarrow> parseTranscript txt = [])"
proof -
  define d where "d = dropWhile (\<lambda>l. \<not> is_label_line l) (split_nl txt)"
  have i: "currentSpeaker init = None" "segments init = []" by (simp_all add: init_def)
  have whole: "parseTranscript txt = parse_lines init d"
    unfolding parseTranscript_def d_def using i by (rule parse_lines_drop_leading)
  have empty: "parse_lines init [] = []" by (simp add: parse_lines_def push_segment_def init_def)
  have "parseTranscript (join [newline] d) = parse_lines init d"
  proof (cases "d = []")
    case True
    have "trim [] = []" by (simp add: trim_def)
    then have "parse_lines init [[]] = []"
      by (simp add: parse_lines_def step_def push_segment_def init_def)
    with True empty show ?thesis by (simp add: parseTranscript_def)
  next
    case False
    have "newline \<notin> set l" if "l \<in> set d" for l
    proof -
      from that have "l \<in> set (split_nl txt)" unfolding d_def by (rule set_dropWhileD)
      then show ?thesis by (rule split_nl_lines)
    qed
    with False have "split_nl (join [newline] d) = d" by (rule split_nl_join)
    then show ?thesis by (simp add: parseTranscript_def)
  qed
  with whole have first: "parseTranscript txt = parseTranscript (join [newline] d)" by simp
  have "parseTranscript txt = []" if "list_all (\<lambda>l. \<not> is_label_line l) (split_nl txt)"
  proof -
    from that have "d = []" by (simp add: d_def list_all_iff)
    with whole empty show ?thesis by simp
  qed
  with first show ?thesis unfolding d_def by simp
qed

theorem leading_text_discarded_witness:
  "parseTranscript (js ''some intro'' @ [newline] @ js ''Hello (BOB)'' @ [newline] @ js ''more'')
     = parseTranscript (js ''Hello (BOB)'' @ [newline] @ js ''more'')
   \<and> list_all (\<lambda>l. \<not> is_label_line l) (split_nl (js ''some intro'' @ [newline] @ js ''(BOB)''))
   \<and> parseTranscript (js ''some intro'' @ [newline] @ js ''(BOB)'') = []"
proof -
  have a: "join [newline] (dropWhile (\<lambda>l. \<not> is_label_line l)
             (split_nl (js ''some intro'' @ [newline] @ js ''Hello (BOB)'' @ [newline] @ js ''more'')))
           = js ''Hello (BOB)'' @ [newline] @ js ''more''"
    by code_simp
  have b: "list_all (\<lambda>l. \<not> is_label_line l) (split_nl (js ''some intro'' @ [newline] @ js ''(BOB)''))"
    by code_simp
  have c: "parseTranscript (js ''some intro'' @ [newline] @ js ''Hello (BOB)'' @ [newline] @ js ''more'')
     = parseTranscript (js ''Hello (BOB)'' @ [newline] @ js ''more'')"
    using leading_text_discarded[of "js ''some intro'' @ [newline] @ js ''Hello (BOB)'' @ [newline] @ js ''more''"]
    unfolding a by (rule conjunct1)
  have "parseTranscript (js ''some intro'' @ [newline] @ js ''(BOB)'') = []"
    using leading_text_discarded[of "js ''some intro'' @ [newline] @ js ''(BOB)''"] b by blast
  with b c show ?thesis by blast
qed

section \<open>Properties of the document and of the transcribe command\<close>

text \<open>
  C10: for every segment sequence, the empty one included, the body of the document
  is, in order, one paragraph per segment whose content is the speaker, a colon, a tab
  and the text, then an empty paragraph, the paragraph "[End of Audio]", an empty
  paragraph and the paragraph "Duration: <duration> minutes"; with no segment the
  document still has its two-line header (title, speakers), the closing marker and the
  duration paragraph.
\<close>

theorem document_body:
  "map par_content (doc_children (build_document title speakers duration segs))
     = map (\<lambda>seg. speaker seg @ js '':'' @ [tab] @ text' seg) segs
       @ [[], js ''[End of Audio]'', [], js ''Duration: '' @ duration @ js '' minutes'']
   \<and> map par_content (doc_header (build_document title speakers duration []))
     = [title, speakers]
   \<and> map par_content (doc_children (build_document title speakers duration []))
     = [[], js ''[End of Audio]'', [], js ''Duration: '' @ duration @ js '' minutes'']"
  by (simp add: build_document_def par_content_def segment_paragraph_def par_of_runs_def
      run_def blank_paragraph_def header_paragraph_def comp_def)

lemma from_argument_exit_codes:
  "(exit_code (from_argument dirs e) = 1) = (arg_missing (audioFileName e) \<or> \<not> audioFileExists e)
   \<and> (exit_code (from_argument dirs e) = 0)
       = (\<not> arg_missing (audioFileName e) \<and> audioFileExists e)
   \<and> exec_started (from_argument dirs e)
       = (\<not> arg_missing (audioFileName e) \<and> audioFileExists e)"
  by (auto simp: from_argument_def arg_missing_def uncaught_def Let_def
      split: option.splits sum.splits)

lemma from_argument_exec_error:
  assumes "\<not> arg_missing (audioFileName e)" and "audioFileExists e"
    and "exec_error e = Some msg"
  shows "last (printed (from_argument dirs e)) = Error (TranscriptionFailed msg)"
  using assms
  by (auto simp: from_argument_def arg_missing_def exec_callback_def split: option.splits)

lemma transcribe_mkdir_throws:
  "mkdir_throws e \<Longrightarrow> exit_code (transcribe e) = 1 \<and> \<not> exec_started (transcribe e)"
  by (auto simp: transcribe_def mkdir_throws_def uncaught_def split: sum.splits)

lemma transcribe_no_throw:
  "\<not> mkdir_throws e \<Longrightarrow> \<exists>dirs. transcribe e = from_argument dirs e"
  by (auto simp: transcribe_def mkdir_throws_def split: sum.splits)

text \<open>
  C9, as amended: when the transcription subprocess reports an error (so no
  \<open>mkdirSync\<close> threw, the argument was given and the audio file exists), the command
  prints the error message last and its callback returns without \<open>process.exit\<close>, so
  the run ends with exit code 0; exit code 1 is produced exactly when the argument is
  missing (absent or empty, the script's \<open>!audioFileName\<close>), the audio file is missing,
  or \<open>fs.mkdirSync\<close> throws while a missing directory is created, and code 0
  otherwise, which is exactly when the subprocess is started.
\<close>

theorem transcribe_exit_codes:
  "(\<not> mkdir_throws e \<and> \<not> arg_missing (audioFileName e) \<and> audioFileExists e
      \<and> exec_error e = Some msg
      \<longrightarrow> exec_started (transcribe e)
          \<and> last (printed (transcribe e)) = Error (TranscriptionFailed msg)
          \<and> exit_code (transcribe e) = 0)
   \<and> (exit_code (transcribe e) = 1)
       = (mkdir_throws e \<or> arg_missing (audioFileName e) \<or> \<not> audioFileExists e)
   \<and> (exit_code (transcribe e) = 0)
       = (\<not> mkdir_throws e \<and> \<not> arg_missing (audioFileName e) \<and> audioFileExists e)
   \<and> exec_started (transcribe e) = (exit_code (transcribe e) = 0)"
proof (cases "mkdir_throws e")
  case True
  with transcribe_mkdir_throws[OF True] show ?thesis by simp
next
  case False
  then obtain dirs where t: "transcribe e = from_argument dirs e"
    by (blast dest: transcribe_no_throw)
  have "last (printed (from_argument dirs e)) = Error (TranscriptionFailed msg)"
    if "\<not> arg_missing (audioFileName e)" "audioFileExists e" "exec_error e = Some msg"
    using that by (rule from_argument_exec_error)
  with False t from_argument_exit_codes[of dirs e] show ?thesis by auto
qed

theorem transcribe_exit_codes_witness:
  "\<not> mkdir_throws \<lparr>audioDirExists = True, mkdirAudioDir_throws = None,
         transcriptsDirExists = True, mkdirTranscriptsDir_throws = None,
         audioFileName = Some ''a.mp3'', audioFileExists = True,
         readdirAudioDir = Inr [''a.mp3''],
         exec_error = Some ''Command failed'', exec_stdout = [], exec_stderr = []\<rparr>
   \<and> \<not> arg_missing (Some ''a.mp3'')
   \<and> transcribe \<lparr>audioDirExists = True, mkdirAudioDir_throws = None,
         transcriptsDirExists = True, mkdirTranscriptsDir_throws = None,
         audioFileName = Some ''a.mp3'', audioFileExists = True,
         readdirAudioDir = Inr [''a.mp3''],
         exec_error = Some ''Command failed'', exec_stdout = [], exec_stderr = []\<rparr>
      = \<lparr>printed = [Log StartingLine, Log (InputLine ''a.mp3''), Log (OutputLine ''a.mp3''),
                    Log WaitLine, Error (TranscriptionFailed ''Command failed'')],
         exec_started = True, exit_code = 0\<rparr>
   \<and> exit_code (transcribe \<lparr>audioDirExists = True, mkdirAudioDir_throws = None,
         transcriptsDirExists = True, mkdirTranscriptsDir_throws = None,
         audioFileName = None, audioFileExists = False, readdirAudioDir = Inr [],
         exec_error = None, exec_stdout = [], exec_stderr = []\<rparr>) = 1"
proof -
  let ?e = "\<lparr>audioDirExists = True, mkdirAudioDir_throws = None,
         transcriptsDirExists = True, mkdirTranscriptsDir_throws = None,
         audioFileName = Some ''a.mp3'', audioFileExists = True,
         readdirAudioDir = Inr [''a.mp3''],
         exec_error = Some ''Command failed'', exec_stdout = [], exec_stderr = []\<rparr>"
  let ?n = "\<lparr>audioDirExists = True, mkdirAudioDir_throws = None,
         transcriptsDirExists = True, mkdirTranscriptsDir_throws = None,
         audioFileName = None, audioFileExists = False, readdirAudioDir = Inr [],
         exec_error = None, exec_stdout = [], exec_stderr = []\<rparr>"
  have m: "\<not> mkdir_throws ?e" by (simp add: mkdir_throws_def ensure_dir_def)
  have a: "\<not> arg_missing (Some ''a.mp3'')" by (simp add: arg_missing_def truthy_def)
  have p: "printed (transcribe ?e)
      = [Log StartingLine, Log (InputLine ''a.mp3''), Log (OutputLine ''a.mp3''),
         Log WaitLine, Error (TranscriptionFailed ''Command failed'')]"
    by (simp add: transcribe_def from_argument_def ensure_dir_def exec_callback_def truthy_def)
  from transcribe_exit_codes[of ?e "''Command failed''"] m a
  have "exec_started (transcribe ?e) \<and> exit_code (transcribe ?e) = 0" by simp
  with p have e: "transcribe ?e
      = \<lparr>printed = [Log StartingLine, Log (InputLine ''a.mp3''), Log (OutputLine ''a.mp3''),
                    Log WaitLine, Error (TranscriptionFailed ''Command failed'')],
         exec_started = True, exit_code = 0\<rparr>"
    by (cases "transcribe ?e") simp
  from transcribe_exit_codes[of ?n msg] have "exit_code (transcribe ?n) = 1"
    by (simp add: arg_missing_def)
  with m a e show ?thesis by simp
qed

text \<open>
  C9, as stated, fails: exit code 1 is not only produced for a missing argument or a
  missing audio file. With the argument given and the audio file present, a
  \<open>transcripts\<close> directory that is missing and cannot be created makes \<open>mkdirSync\<close>
  throw, and the run ends with exit code 1 before the argument is read.
\<close>

theorem transcribe_exit_1_when_mkdir_throws:
  "\<not> arg_missing (Some ''a.mp3'')
   \<and> exit_code (transcribe \<lparr>audioDirExists = True, mkdirAudioDir_throws = None,
         transcriptsDirExists = False,
         mkdirTranscriptsDir_throws = Some ''EACCES: permission denied, mkdir'',
         audioFileName = Some ''a.mp3'', audioFileExists = True,
         readdirAudioDir = Inr [''a.mp3''],
         exec_error = None, exec_stdout = [], exec_stderr = []\<rparr>) = 1
   \<and> printed (transcribe \<lparr>audioDirExists = True, mkdirAudioDir_throws = None,
         transcriptsDirExists = False,
         mkdirTranscriptsDir_throws = Some ''EACCES: permission denied, mkdir'',
         audioFileName = Some ''a.mp3'', audioFileExists = True,
         readdirAudioDir = Inr [''a.mp3''],
         exec_error = None, exec_stdout = [], exec_stderr = []\<rparr>)
      = [Error (Uncaught ''EACCES: permission denied, mkdir'')]"
  by (simp add: transcribe_def ensure_dir_def uncaught_def arg_missing_def truthy_def)

section \<open>Properties of extractSpeakers\<close>

lemma capture_end_Some:
  "capture_end n r = Some (t, rest) \<Longrightarrow> n \<le> length (takeWhile (\<lambda>d. d \<noteq> rparen) r) \<Longrightarrow>
   r = t @ rparen # rest \<and> t \<noteq> [] \<and> rparen \<notin> set t"
proof (induction n)
  case 0
  then show ?case by simp
next
  case (Suc n)
  show ?case
  proof (cases "drop (Suc n) r")
    case Nil
    with Suc show ?thesis by simp
  next
    case (Cons d rest')
    show ?thesis
    proof (cases "d = rparen")
      case False
      with Suc Cons show ?thesis by simp
    next
      case True
      with Suc.prems(1) Cons have t: "t = take (Suc n) r" and rest: "rest = rest'" by simp_all
      have "r = take (Suc n) r @ drop (Suc n) r" by simp
      with Cons True t rest have r: "r = t @ rparen # rest" by simp
      from Cons have "Suc n < length r" by (metis drop_all linorder_not_le list.distinct(1))
      with t have ne: "t \<noteq> []" by auto
      have "take k (xs @ ys) = take k xs" if "k \<le> length xs" for k and xs ys :: jsstring
        using that by simp
      from this[OF Suc.prems(2), of "dropWhile (\<lambda>d. d \<noteq> rparen) r"]
      have "take (Suc n) r = take (Suc n) (takeWhile (\<lambda>d. d \<noteq> rparen) r)"
        by (simp only: takeWhile_dropWhile_id)
      with t have "set t \<subseteq> set (takeWhile (\<lambda>d. d \<noteq> rparen) r)"
        by (metis set_take_subset)
      then have "rparen \<notin> set t" by (auto dest: set_takeWhileD)
      with r ne show ?thesis by simp
    qed
  qed
qed

lemma exec_speakerPattern_Some:
  "exec_speakerPattern s = Some (t, rest) \<Longrightarrow>
   \<exists>pre. s = pre @ lparen # t @ rparen # rest \<and> t \<noteq> [] \<and> rparen \<notin> set t"
proof (induction s)
  case Nil
  then show ?case by simp
next
  case (Cons c r)
  show ?case
  proof (cases "c = lparen \<and> capture_end (length (takeWhile (\<lambda>d. d \<noteq> rparen) r)) r = Some (t, rest)")
    case True
    then have "capture_end (length (takeWhile (\<lambda>d. d \<noteq> rparen) r)) r = Some (t, rest)"
      by simp
    then have "r = t @ rparen # rest \<and> t \<noteq> [] \<and> rparen \<notin> set t"
      by (rule capture_end_Some) simp
    with True have "c # r = [] @ lparen # t @ rparen # rest \<and> t \<noteq> [] \<and> rparen \<notin> set t" by simp
    then show ?thesis by blast
  next
    case False
    with Cons.prems have "exec_speakerPattern r = Some (t, rest)"
      by (auto split: if_splits option.splits)
    from Cons.IH[OF this] obtain pre where "r = pre @ lparen # t @ rparen # rest \<and> t \<noteq> [] \<and> rparen \<notin> set t"
      by blast
    then have "c # r = (c # pre) @ lparen # t @ rparen # rest \<and> t \<noteq> [] \<and> rparen \<notin> set t" by simp
    then show ?thesis by blast
  qed
qed

lemma captures_sound:
  "t \<in> set (captures s) \<Longrightarrow>
   t \<noteq> [] \<and> rparen \<notin> set t \<and> (\<exists>pre post. s = pre @ lparen # t @ rparen # post)"
proof (induction s rule: captures.induct)
  case (1 s)
  show ?case
  proof (cases "exec_speakerPattern s")
    case None
    with "1.prems" show ?thesis by (simp add: captures.simps[of s])
  next
    case (Some a)
    obtain u rest where a: "a = (u, rest)" by (cases a)
    with Some obtain pre where s: "s = pre @ lparen # u @ rparen # rest" and u: "u \<noteq> []" "rparen \<notin> set u"
      by (blast dest: exec_speakerPattern_Some)
    from "1.prems" Some a have "t = u \<or> t \<in> set (captures rest)"
      by (simp add: captures.simps[of s])
    then show ?thesis
    proof
      assume "t = u"
      with s u show ?thesis by blast
    next
      assume "t \<in> set (captures rest)"
      with "1.IH"[OF Some a[symmetric]] obtain p q where
        "t \<noteq> []" "rparen \<notin> set t" "rest = p @ lparen # t @ rparen # q" by blast
      with s have "s = (pre @ lparen # u @ rparen # p) @ lparen # t @ rparen # q" by simp
      with \<open>t \<noteq> []\<close> \<open>rparen \<notin> set t\<close> show ?thesis by blast
    qed
  qed
qed

lemma set_add_set: "set (set_add xs x) = insert x (set xs)"
  by (auto simp: set_add_def)

lemma set_add_distinct: "distinct xs \<Longrightarrow> distinct (set_add xs x)"
  by (simp add: set_add_def)

lemma collect_speakers_set:
  "set (collect_speakers s acc) = set acc \<union> {t \<in> set (captures s). space \<notin> set t}"
proof (induction s acc rule: collect_speakers.induct)
  case (1 s speakers)
  show ?case
  proof (cases "exec_speakerPattern s")
    case None
    then show ?thesis by (simp add: captures.simps[of s] collect_speakers.simps[of s])
  next
    case (Some a)
    obtain u rest where a: "a = (u, rest)" by (cases a)
    with Some have "u \<noteq> []" by (blast dest: exec_speakerPattern_Some)
    with "1.IH"[OF Some a[symmetric]] Some a show ?thesis
      by (auto simp: set_add_set captures.simps[of s] collect_speakers.simps[of s])
  qed
qed

lemma collect_speakers_distinct:
  "distinct acc \<Longrightarrow> distinct (collect_speakers s acc)"
proof (induction s acc rule: collect_speakers.induct)
  case (1 s speakers)
  show ?case
  proof (cases "exec_speakerPattern s")
    case None
    with "1.prems" show ?thesis by (simp add: collect_speakers.simps[of s])
  next
    case (Some a)
    obtain u rest where a: "a = (u, rest)" by (cases a)
    have "distinct (if u \<noteq> [] \<and> space \<notin> set u then set_add speakers u else speakers)"
      using "1.prems" by (simp add: set_add_distinct)
    with "1.IH"[OF Some a[symmetric]] Some a show ?thesis
      by (simp add: collect_speakers.simps[of s])
  qed
qed

lemma no_match_start_Cons_other:
  "c \<noteq> lparen \<Longrightarrow> no_match_start (c # r) \<Longrightarrow> no_match_start r"
  unfolding no_match_start_def
proof (intro allI impI)
  fix a b
  assume "c \<noteq> lparen" and h: "\<forall>a b. c # r = a @ lparen # b \<longrightarrow> (\<exists>b'. b = rparen # b')"
    and "r = a @ lparen # b"
  then have "c # r = (c # a) @ lparen # b" by simp
  with h show "\<exists>b'. b = rparen # b'" by blast
qed

lemma no_match_start_Cons_lparen:
  assumes "no_match_start (lparen # r)"
  shows "\<exists>r'. r = rparen # r' \<and> no_match_start r'"
proof -
  have "lparen # r = [] @ lparen # r" by simp
  with assms obtain r' where r: "r = rparen # r'" unfolding no_match_start_def by blast
  have "no_match_start r'"
    unfolding no_match_start_def
  proof (intro allI impI)
    fix a b
    assume "r' = a @ lparen # b"
    with r have "lparen # r = (lparen # rparen # a) @ lparen # b" by simp
    with assms show "\<exists>b'. b = rparen # b'" unfolding no_match_start_def by blast
  qed
  with r show ?thesis by blast
qed

lemma capture_end_found:
  assumes "t \<noteq> []" and "rparen \<notin> set t"
  shows "capture_end (length (takeWhile (\<lambda>d. d \<noteq> rparen) (t @ rparen # post))) (t @ rparen # post)
         = Some (t, post)"
proof -
  from assms(2) have "takeWhile (\<lambda>d. d \<noteq> rparen) (t @ rparen # post) = t"
    by (induction t) auto
  moreover from assms(1) obtain n where "length t = Suc n" by (cases t) auto
  ultimately show ?thesis by simp
qed

lemma exec_speakerPattern_leftmost:
  "no_match_start pre \<Longrightarrow> t \<noteq> [] \<Longrightarrow> rparen \<notin> set t \<Longrightarrow>
   exec_speakerPattern (pre @ lparen # t @ rparen # post) = Some (t, post)"
proof (induction pre rule: length_induct)
  case (1 pre)
  show ?case
  proof (cases pre)
    case Nil
    with "1.prems" show ?thesis by (simp add: capture_end_found)
  next
    case (Cons c r)
    show ?thesis
    proof (cases "c = lparen")
      case False
      with "1.prems"(1) Cons have "no_match_start r" by (auto dest: no_match_start_Cons_other)
      with "1.IH" "1.prems"(2,3) Cons have "exec_speakerPattern (r @ lparen # t @ rparen # post) = Some (t, post)"
        by simp
      with False Cons show ?thesis by simp
    next
      case True
      with "1.prems"(1) Cons obtain r' where r: "r = rparen # r'" and n: "no_match_start r'"
        by (auto dest: no_match_start_Cons_lparen)
      with "1.IH" "1.prems"(2,3) Cons have "exec_speakerPattern (r' @ lparen # t @ rparen # post) = Some (t, post)"
        by simp
      moreover have "rparen \<noteq> lparen" by (simp add: lparen_def rparen_def)
      ultimately show ?thesis using True Cons r by simp
    qed
  qed
qed

lemma exec_speakerPattern_None:
  "exec_speakerPattern s = None \<Longrightarrow> t \<noteq> [] \<Longrightarrow> rparen \<notin> set t \<Longrightarrow>
   s \<noteq> pre @ lparen # t @ rparen # post"
proof (induction s arbitrary: pre)
  case Nil
  then show ?case by simp
next
  case (Cons c r)
  show ?case
  proof
    assume eq: "c # r = pre @ lparen # t @ rparen # post"
    show False
    proof (cases pre)
      case Nil
      with eq have "c = lparen" and "r = t @ rparen # post" by simp_all
      with Cons.prems show False by (simp add: capture_end_found)
    next
      case (Cons d pre')
      with eq have r: "r = pre' @ lparen # t @ rparen # post" by simp
      from Cons.prems(1) have "exec_speakerPattern r = None"
        by (auto split: if_splits option.splits)
      from Cons.IH[OF this Cons.prems(2,3), of pre'] r show False by simp
    qed
  qed
qed

lemma captures_leftmost:
  assumes "no_match_start pre" and "t \<noteq> []" and "rparen \<notin> set t"
  shows "captures (pre @ lparen # t @ rparen # post) = t # captures post"
  using exec_speakerPattern_leftmost[OF assms, of post]
  by (simp add: captures.simps[of "pre @ lparen # t @ rparen # post"])

lemma captures_Nil_iff:
  "captures s = [] \<longleftrightarrow> \<not> (\<exists>pre t post. s = pre @ lparen # t @ rparen # post \<and> t \<noteq> [] \<and> rparen \<notin> set t)"
proof (cases "exec_speakerPattern s")
  case None
  then have "captures s = []" by (simp add: captures.simps[of s])
  with None show ?thesis by (auto dest: exec_speakerPattern_None)
next
  case (Some a)
  obtain t rest where a: "a = (t, rest)" by (cases a)
  with Some have "captures s \<noteq> []" by (simp add: captures.simps[of s])
  moreover from Some a have "\<exists>pre. s = pre @ lparen # t @ rparen # rest \<and> t \<noteq> [] \<and> rparen \<notin> set t"
    by (intro exec_speakerPattern_Some) simp
  ultimately show ?thesis by blast
qed

text \<open>
  C6, as amended: extractSpeakers scans the whole text, not line by line, for the
  successive leftmost matches of \<open>(\<close>, one or more code units other than \<open>)\<close>, and
  \<open>)\<close>. Every capture of the scan is a non-empty span without \<open>)\<close> that stands
  between \<open>(\<close> and \<open>)\<close> in the text; it may hold \<open>(\<close> and whitespace. The first such
  span that no earlier match start precedes is captured and the scan goes on after its
  \<open>)\<close>; there is no capture exactly when the text has no such span. The captures
  without a space (U+0020) are collected into a set, and the result is the distinct
  values, sorted by code units and joined by a comma and a space. On
  "a (BOB) b (ALICE) c (BOB)" it returns "ALICE, BOB".
\<close>

theorem extractSpeakers_scan:
  "(\<exists>ts. extractSpeakers txt = join (js '', '') ts
         \<and> sorted_wrt (<) ts
         \<and> set ts = {t \<in> set (captures txt). space \<notin> set t})
   \<and> (\<forall>t \<in> set (captures txt).
         t \<noteq> [] \<and> rparen \<notin> set t \<and> (\<exists>pre post. txt = pre @ lparen # t @ rparen # post))
   \<and> (\<forall>pre t post.
         txt = pre @ lparen # t @ rparen # post \<and> no_match_start pre \<and> t \<noteq> [] \<and> rparen \<notin> set t
         \<longrightarrow> captures txt = t # captures post)
   \<and> (captures txt = [])
       = (\<not> (\<exists>pre t post. txt = pre @ lparen # t @ rparen # post \<and> t \<noteq> [] \<and> rparen \<notin> set t))
   \<and> extractSpeakers (js ''a (BOB) b (ALICE) c (BOB)'') = js ''ALICE, BOB''"
proof -
  let ?ts = "sort (collect_speakers txt [])"
  have "distinct (collect_speakers txt [])" by (rule collect_speakers_distinct) simp
  then have "sorted_wrt (<) ?ts" by (simp add: strict_sorted_iff)
  moreover have "set ?ts = {t \<in> set (captures txt). space \<notin> set t}"
    by (simp add: collect_speakers_set)
  moreover have "extractSpeakers txt = join (js '', '') ?ts" by (simp add: extractSpeakers_def)
  ultimately have h1: "\<exists>ts. extractSpeakers txt = join (js '', '') ts
         \<and> sorted_wrt (<) ts \<and> set ts = {t \<in> set (captures txt). space \<notin> set t}"
    by blast
  have h2: "\<forall>t \<in> set (captures txt).
         t \<noteq> [] \<and> rparen \<notin> set t \<and> (\<exists>pre post. txt = pre @ lparen # t @ rparen # post)"
    using captures_sound by blast
  have h3: "\<forall>pre t post.
         txt = pre @ lparen # t @ rparen # post \<and> no_match_start pre \<and> t \<noteq> [] \<and> rparen \<notin> set t
         \<longrightarrow> captures txt = t # captures post"
    using captures_leftmost by blast
  have h5: "extractSpeakers (js ''a (BOB) b (ALICE) c (BOB)'') = js ''ALICE, BOB''"
    by code_simp
  have h4: "(captures txt = [])
       = (\<not> (\<exists>pre t post. txt = pre @ lparen # t @ rparen # post \<and> t \<noteq> [] \<and> rparen \<notin> set t))"
    by (rule captures_Nil_iff)
  from h1 h2 h3 h4 h5 show ?thesis by (intro conjI)
qed

theorem extractSpeakers_scan_witness:
  "js ''BOB'' \<in> set (captures (js ''a (BOB) b (x y)''))
   \<and> js ''BOB'' \<noteq> [] \<and> rparen \<notin> set (js ''BOB'')
   \<and> (\<exists>pre post. js ''a (BOB) b (x y)'' = pre @ lparen # js ''BOB'' @ rparen # post)
   \<and> extractSpeakers (js ''a (BOB) b (x y)'') = js ''BOB''"
proof -
  have m: "js ''BOB'' \<in> set (captures (js ''a (BOB) b (x y)''))" by code_simp
  have e: "extractSpeakers (js ''a (BOB) b (x y)'') = js ''BOB''" by code_simp
  from extractSpeakers_scan[of "js ''a (BOB) b (x y)''"]
  have "\<forall>t \<in> set (captures (js ''a (BOB) b (x y)'')).
         t \<noteq> [] \<and> rparen \<notin> set t
         \<and> (\<exists>pre post. js ''a (BOB) b (x y)'' = pre @ lparen # t @ rparen # post)"
    by blast
  with m e show ?thesis by blast
qed

text \<open>
  C6, as stated, fails: the spans are not free of whitespace and parentheses. On the
  text "((BOB) (a<TAB>b)" extractSpeakers returns "(BOB, a<TAB>b", where the
  specification's reading gives "BOB".
\<close>

theorem extractSpeakers_not_spec:
  "extractSpeakers (js ''((BOB) (a'' @ [tab] @ js ''b)'') = js ''(BOB, a'' @ [tab] @ js ''b''
   \<and> spec_extractSpeakers (js ''((BOB) (a'' @ [tab] @ js ''b)'') = js ''BOB''
   \<and> is_whitespace tab"
  by code_simp

end
